theory Spec2Isabelle
  imports Main "HOL-Library.Word"
begin

unbundle bit_operations_syntax

section \<open>Data model of \<^verbatim>\<open>src/allocation/main.cpp\<close>\<close>

text \<open>
  The allocator is written for a 64-bit little-endian target: \<^verbatim>\<open>size_t\<close>, \<^verbatim>\<open>word_t\<close>
  and every pointer are 64-bit words, \<^verbatim>\<open>int\<close> has 32 bits and \<^verbatim>\<open>bool\<close> is one byte.
  A \<^verbatim>\<open>Block*\<close> is the address of the header, \<^verbatim>\<open>nullptr\<close> is the address 0.
\<close>

type_synonym addr = "64 word"

type_synonym byte = "8 word"

definition sizeof_word_t :: "64 word" where
  "sizeof_word_t = 8"

definition sizeof_Block :: "64 word" where
  "sizeof_Block = 32"

definition sizeof_data :: "64 word" where
  "sizeof_data = 8"

datatype SearchMode = FirstFit | NextFit | BestFit | FreeList | SegregatedList

text \<open>
  The globals of the program, together with the two things it takes from the operating
  system: the memory, one byte at every address (\<open>mem\<close>), and the program break moved
  by \<^verbatim>\<open>sbrk\<close> (\<open>brk\<close>), which the system lets grow up to \<open>brk_max\<close>. The global
  \<^verbatim>\<open>top\<close> is called \<open>top_blk\<close>. The two bucket tables have \<open>num_buckets\<close> entries
  each and are indexed from 0. The \<^verbatim>\<open>std::list\<close> keeps its nodes outside \<open>mem\<close>.
\<close>

record state =
  mem :: "addr \<Rightarrow> byte"
  brk :: addr
  brk_max :: addr
  heapStart :: addr
  top_blk :: addr
  searchMode :: SearchMode
  searchStart :: addr
  free_list :: "addr list"
  segregatedLists :: "nat \<Rightarrow> addr"
  segregatedTops :: "nat \<Rightarrow> addr"

definition num_buckets :: int where
  "num_buckets = 5"

text \<open>
  What the C++ leaves undefined is an error value of the model: a read or write through
  \<^verbatim>\<open>nullptr\<close>, and an index outside a bucket table. The program itself has no error
  type: none of its functions reports a failure other than by returning \<^verbatim>\<open>nullptr\<close>.
  Every other address can be read and written.
\<close>

datatype error = NullDeref | IndexOutOfBounds

type_synonym 'a result = "error + 'a"

subsection \<open>Bytes and words in memory\<close>

text \<open>
  A 64-bit store writes the eight bytes of the value, lowest first, at the eight
  addresses from \<open>p\<close> on; a 64-bit load puts them together again. Addresses wrap around.
\<close>

definition store8 :: "addr \<Rightarrow> byte \<Rightarrow> (addr \<Rightarrow> byte) \<Rightarrow> addr \<Rightarrow> byte" where
  "store8 p v m = m(p := v)"

definition store64 :: "addr \<Rightarrow> 64 word \<Rightarrow> (addr \<Rightarrow> byte) \<Rightarrow> addr \<Rightarrow> byte" where
  "store64 p v m = (\<lambda>x. if x - p < 8 then ucast (drop_bit (8 * unat (x - p)) v) else m x)"

definition load64 :: "(addr \<Rightarrow> byte) \<Rightarrow> addr \<Rightarrow> 64 word" where
  "load64 m p =
     ucast (m p) OR push_bit 8 (ucast (m (p + 1))) OR push_bit 16 (ucast (m (p + 2))) OR
     push_bit 24 (ucast (m (p + 3))) OR push_bit 32 (ucast (m (p + 4))) OR
     push_bit 40 (ucast (m (p + 5))) OR push_bit 48 (ucast (m (p + 6))) OR
     push_bit 56 (ucast (m (p + 7)))"

subsection \<open>The block header\<close>

text \<open>
  \<^verbatim>\<open>struct Block { size_t size; bool used; Block *next; word_t data[1]; }\<close>:
  \<^verbatim>\<open>size\<close> is at offset 0, \<^verbatim>\<open>used\<close> is the byte at offset 8, \<^verbatim>\<open>next\<close> is at offset 16,
  the payload starts at offset 24, and \<^verbatim>\<open>sizeof(Block)\<close> is 32. The field \<^verbatim>\<open>next\<close> is
  called \<open>b_next\<close> here. Headers are read and written field by field, so headers that
  are less than 24 bytes apart share bytes. A \<^verbatim>\<open>bool\<close> is stored as 1 or 0, and a byte
  other than 0 reads as true.
\<close>

definition off_used :: "64 word" where
  "off_used = 8"

definition off_next :: "64 word" where
  "off_next = 16"

definition b_size :: "(addr \<Rightarrow> byte) \<Rightarrow> addr \<Rightarrow> 64 word" where
  "b_size m p = load64 m p"

definition b_used :: "(addr \<Rightarrow> byte) \<Rightarrow> addr \<Rightarrow> bool" where
  "b_used m p = (m (p + off_used) \<noteq> 0)"

definition b_next :: "(addr \<Rightarrow> byte) \<Rightarrow> addr \<Rightarrow> addr" where
  "b_next m p = load64 m (p + off_next)"

definition set_size :: "addr \<Rightarrow> 64 word \<Rightarrow> state \<Rightarrow> state" where
  "set_size p v s = s\<lparr>mem := store64 p v (mem s)\<rparr>"

definition set_used :: "addr \<Rightarrow> bool \<Rightarrow> state \<Rightarrow> state" where
  "set_used p v s = s\<lparr>mem := store8 (p + off_used) (if v then 1 else 0) (mem s)\<rparr>"

definition set_next :: "addr \<Rightarrow> addr \<Rightarrow> state \<Rightarrow> state" where
  "set_next p v s = s\<lparr>mem := store64 (p + off_next) v (mem s)\<rparr>"

text \<open>The C conversion \<^verbatim>\<open>(int)\<close> of a \<^verbatim>\<open>size_t\<close>: the low 32 bits, read as signed.\<close>

definition to_int :: "64 word \<Rightarrow> int" where
  "to_int x = sint (ucast x :: 32 word)"

section \<open>Alignment and sizes\<close>

text \<open>\<^verbatim>\<open>return (x + sizeof(word_t) - 1) & ~(sizeof(word_t) - 1);\<close>\<close>

definition align :: "64 word \<Rightarrow> 64 word" where
  "align x = (x + sizeof_word_t - 1) AND NOT (sizeof_word_t - 1)"

text \<open>\<^verbatim>\<open>return sizeof(Block) + size - sizeof(std::declval<Block>().data);\<close>\<close>

definition allocSize :: "64 word \<Rightarrow> 64 word" where
  "allocSize sz = sizeof_Block + sz - sizeof_data"

section \<open>The backing store\<close>

text \<open>
  \<^verbatim>\<open>sbrk(incr)\<close> of the C library: the increment is signed; the call returns the old
  break and moves it, or returns \<^verbatim>\<open>(void *)-1\<close> and moves nothing when the system
  refuses the new break. \<^verbatim>\<open>sbrk(0)\<close> asks for the current break and is never refused.
\<close>

definition sbrk :: "64 word \<Rightarrow> state \<Rightarrow> addr \<times> state" where
  "sbrk incr s =
     (let new = uint (brk s) + sint incr in
      if incr = 0 \<or> (0 \<le> new \<and> new \<le> uint (brk_max s))
      then (brk s, s\<lparr>brk := brk s + incr\<rparr>)
      else (- 1, s))"

definition requestFromOS :: "64 word \<Rightarrow> state \<Rightarrow> addr \<times> state" where
  "requestFromOS sz s =
     (let (block, s1) = sbrk 0 s;
          (r, s2) = sbrk (allocSize sz) s1
      in if r = - 1 then (0, s2) else (block, s2))"

section \<open>Splitting\<close>

text \<open>
  The assignments of \<^verbatim>\<open>split\<close> are kept in the order of the source; the block that is
  pushed on the free list is \<^verbatim>\<open>block\<close>, as in line 89.
\<close>

definition split :: "addr \<Rightarrow> 64 word \<Rightarrow> state \<Rightarrow> (addr \<times> state) result" where
  "split block sz s =
     (let freePart = block + allocSize sz in
      if block = 0 \<or> freePart = 0 then Inl NullDeref
      else
        let s1 = set_size freePart (b_size (mem s) block - allocSize sz) s;
            s2 = set_used freePart False s1;
            s3 = set_next freePart (b_next (mem s2) block) s2;
            s4 = set_size block sz s3;
            s5 = set_next block freePart s4;
            s6 = (if searchMode s5 = FreeList
                  then s5\<lparr>free_list := free_list s5 @ [block]\<rparr> else s5)
        in Inr (block, s6))"

text \<open>\<^verbatim>\<open>return (int)(allocSize(block->size) - size) >= (int)sizeof(Block);\<close>\<close>

definition canSplit :: "state \<Rightarrow> addr \<Rightarrow> 64 word \<Rightarrow> bool" where
  "canSplit s block sz =
     (to_int sizeof_Block \<le> to_int (allocSize (b_size (mem s) block) - sz))"

definition listAllocate :: "addr \<Rightarrow> 64 word \<Rightarrow> state \<Rightarrow> (addr \<times> state) result" where
  "listAllocate block sz s =
     (if block = 0 then Inl NullDeref
      else
        case (if searchMode s \<noteq> SegregatedList \<and> canSplit s block sz
              then split block sz s else Inr (block, s)) of
          Inl e \<Rightarrow> Inl e
        | Inr (block1, s1) \<Rightarrow>
            Inr (block1, set_size block1 sz (set_used block1 True s1)))"

section \<open>Placement strategies\<close>

text \<open>
  The chains are linked through memory, so a search loop need not end: each loop is a
  partial function, and \<open>None\<close> is the run that never returns. A strategy that finds
  nothing returns \<^verbatim>\<open>nullptr\<close>, the address 0.
\<close>

partial_function (option) firstFit_loop ::
  "64 word \<Rightarrow> addr \<Rightarrow> state \<Rightarrow> (addr \<times> state) result option" where
  "firstFit_loop sz block s =
     (if block = 0 then Some (Inr (0, s))
      else if b_used (mem s) block \<or> b_size (mem s) block < sz
      then firstFit_loop sz (b_next (mem s) block) s
      else Some (listAllocate block sz s))"

definition firstFit :: "64 word \<Rightarrow> state \<Rightarrow> (addr \<times> state) result option" where
  "firstFit sz s = firstFit_loop sz (heapStart s) s"

partial_function (option) nextFit_loop ::
  "64 word \<Rightarrow> addr \<Rightarrow> addr \<Rightarrow> state \<Rightarrow> (addr \<times> state) result option" where
  "nextFit_loop sz start block s =
     (if block = 0 then Some (Inr (0, s))
      else if b_used (mem s) block \<or> b_size (mem s) block < sz
      then
        let block1 = b_next (mem s) block;
            block2 = (if block1 = 0 then heapStart s else block1)
        in if block2 = start then Some (Inr (0, s))
           else nextFit_loop sz start block2 s
      else Some (listAllocate block sz (s\<lparr>searchStart := block\<rparr>)))"

definition nextFit :: "64 word \<Rightarrow> state \<Rightarrow> (addr \<times> state) result option" where
  "nextFit sz s =
     (let s1 = (if searchStart s = 0 then s\<lparr>searchStart := heapStart s\<rparr> else s);
          start = searchStart s1
      in nextFit_loop sz start start s1)"

text \<open>
  The loop of \<^verbatim>\<open>bestFit\<close>, returning \<^verbatim>\<open>best\<close>. Its last branch is the path of the
  source on which a fitting block is not smaller than \<^verbatim>\<open>best\<close>: the body ends without
  moving \<^verbatim>\<open>block\<close>.
\<close>

partial_function (option) bestFit_loop ::
  "64 word \<Rightarrow> addr \<Rightarrow> addr \<Rightarrow> state \<Rightarrow> addr option" where
  "bestFit_loop sz block best s =
     (if block = 0 then Some best
      else if b_used (mem s) block \<or> b_size (mem s) block < sz
      then bestFit_loop sz (b_next (mem s) block) best s
      else if best = 0 \<or> b_size (mem s) block < b_size (mem s) best
      then bestFit_loop sz (b_next (mem s) block) block s
      else bestFit_loop sz block best s)"

definition bestFit :: "64 word \<Rightarrow> state \<Rightarrow> (addr \<times> state) result option" where
  "bestFit sz s =
     (case bestFit_loop sz (heapStart s) 0 s of
        None \<Rightarrow> None
      | Some best \<Rightarrow>
          if best = 0 then Some (Inr (0, s)) else Some (listAllocate best sz s))"

text \<open>The range-for of \<^verbatim>\<open>freeList\<close> over the \<^verbatim>\<open>std::list\<close>, up to its \<^verbatim>\<open>break\<close>.\<close>

fun freeList_scan :: "state \<Rightarrow> 64 word \<Rightarrow> addr list \<Rightarrow> addr result" where
  "freeList_scan s sz [] = Inr 0"
| "freeList_scan s sz (block # rest) =
     (if block = 0 then Inl NullDeref
      else if sz \<le> b_size (mem s) block then Inr block
      else freeList_scan s sz rest)"

text \<open>\<^verbatim>\<open>std::list::remove\<close> erases every element equal to its argument.\<close>

definition freeList :: "64 word \<Rightarrow> state \<Rightarrow> (addr \<times> state) result" where
  "freeList sz s =
     (case freeList_scan s sz (free_list s) of
        Inl e \<Rightarrow> Inl e
      | Inr foundBlock \<Rightarrow>
          if foundBlock \<noteq> 0
          then listAllocate foundBlock sz
                 (s\<lparr>free_list := removeAll foundBlock (free_list s)\<rparr>)
          else Inr (0, s))"

text \<open>\<^verbatim>\<open>inline int getBucket(size_t size) { return size / sizeof(word_t) - 1; }\<close>\<close>

definition getBucket :: "64 word \<Rightarrow> int" where
  "getBucket sz = to_int (sz div sizeof_word_t - 1)"

definition segregatedFit :: "64 word \<Rightarrow> state \<Rightarrow> (addr \<times> state) result option" where
  "segregatedFit sz s =
     (let bucket = getBucket sz;
          originalHeapStart = heapStart s
      in if bucket < 0 \<or> num_buckets \<le> bucket then Some (Inl IndexOutOfBounds)
         else
           case firstFit sz (s\<lparr>heapStart := segregatedLists s (nat bucket)\<rparr>) of
             None \<Rightarrow> None
           | Some (Inl e) \<Rightarrow> Some (Inl e)
           | Some (Inr (block, s1)) \<Rightarrow>
               Some (Inr (block, s1\<lparr>heapStart := originalHeapStart\<rparr>)))"

definition findBlock :: "64 word \<Rightarrow> state \<Rightarrow> (addr \<times> state) result option" where
  "findBlock sz s =
     (case searchMode s of
        FirstFit \<Rightarrow> firstFit sz s
      | NextFit \<Rightarrow> nextFit sz s
      | BestFit \<Rightarrow> bestFit sz s
      | FreeList \<Rightarrow> Some (freeList sz s)
      | SegregatedList \<Rightarrow> segregatedFit sz s)"

section \<open>Coalescing\<close>

definition coalesce :: "addr \<Rightarrow> state \<Rightarrow> (addr \<times> state) result" where
  "coalesce block s =
     (if block = 0 \<or> b_next (mem s) block = 0 then Inl NullDeref
      else if \<not> b_used (mem s) (b_next (mem s) block)
      then
        let s1 = (if b_next (mem s) block = top_blk s then s\<lparr>top_blk := block\<rparr> else s);
            s2 = set_size block
                   (b_size (mem s1) block + b_size (mem s1) (b_next (mem s1) block)) s1;
            s3 = set_next block (b_next (mem s2) (b_next (mem s2) block)) s2
        in Inr (block, s3)
      else Inr (block, s))"

text \<open>\<^verbatim>\<open>return block->next && !block->next->used;\<close>\<close>

definition canCoalesce :: "state \<Rightarrow> addr \<Rightarrow> bool" where
  "canCoalesce s block =
     (b_next (mem s) block \<noteq> 0 \<and> \<not> b_used (mem s) (b_next (mem s) block))"

section \<open>The allocator\<close>

text \<open>
  \<^verbatim>\<open>block->data\<close> is the address of the payload; \<^verbatim>\<open>getHeader\<close> goes back from it:
  \<^verbatim>\<open>(char *)data + sizeof(std::declval<Block>().data) - sizeof(Block)\<close>.
\<close>

definition data_of :: "addr \<Rightarrow> addr" where
  "data_of block = block + (sizeof_Block - sizeof_data)"

definition getHeader :: "addr \<Rightarrow> addr" where
  "getHeader data = data + sizeof_data - sizeof_Block"

text \<open>\<^verbatim>\<open>brk(heapStart)\<close> moves the break back; the contents of \<open>mem\<close> are left as they are.\<close>

definition resetHeap :: "state \<Rightarrow> state" where
  "resetHeap s =
     (if heapStart s = 0 then s
      else s\<lparr>brk := heapStart s, heapStart := 0, top_blk := 0, searchStart := 0\<rparr>)"

definition init :: "SearchMode \<Rightarrow> state \<Rightarrow> state" where
  "init mode s = resetHeap (s\<lparr>searchMode := mode\<rparr>)"

text \<open>
  The state in which \<^verbatim>\<open>main\<close> starts: the static initialisers of lines 31 to 51, a
  program break \<open>b\<close> that may grow up to \<open>m\<close>, and memory that reads as zero.
\<close>

definition boot :: "addr \<Rightarrow> addr \<Rightarrow> state" where
  "boot b m =
     \<lparr>mem = (\<lambda>_. 0), brk = b, brk_max = m, heapStart = 0, top_blk = 0,
      searchMode = FirstFit, searchStart = 0, free_list = [],
      segregatedLists = (\<lambda>_. 0), segregatedTops = (\<lambda>_. 0)\<rparr>"

text \<open>
  \<^verbatim>\<open>alloc\<close> returns the payload address and the new state. Line 288 writes through the
  pointer that \<^verbatim>\<open>requestFromOS\<close> returned, whatever it is.
\<close>

definition alloc :: "64 word \<Rightarrow> state \<Rightarrow> (addr \<times> state) result option" where
  "alloc size0 s =
     (let sz = align size0 in
      case findBlock sz s of
        None \<Rightarrow> None
      | Some (Inl e) \<Rightarrow> Some (Inl e)
      | Some (Inr (found, s1)) \<Rightarrow>
          if found \<noteq> 0 then Some (Inr (data_of found, s1))
          else
            let (block, s2) = requestFromOS sz s1 in
            if block = 0 then Some (Inl NullDeref)
            else
              let s3 = set_size block sz s2;
                  s4 = set_used block True s3
              in
                if searchMode s4 = SegregatedList
                then
                  let bucket = getBucket sz in
                  if bucket < 0 \<or> num_buckets \<le> bucket then Some (Inl IndexOutOfBounds)
                  else
                    let k = nat bucket;
                        s5 = (if segregatedLists s4 k = 0
                              then s4\<lparr>segregatedLists := (segregatedLists s4)(k := block)\<rparr>
                              else s4);
                        s6 = (if segregatedTops s5 k \<noteq> 0
                              then set_next (segregatedTops s5 k) block s5 else s5);
                        s7 = s6\<lparr>segregatedTops := (segregatedTops s6)(k := block)\<rparr>
                    in Some (Inr (data_of block, s7))
                else
                  let s5 = (if heapStart s4 = 0 then s4\<lparr>heapStart := block\<rparr> else s4);
                      s6 = (if top_blk s5 \<noteq> 0 then set_next (top_blk s5) block s5 else s5);
                      s7 = s6\<lparr>top_blk := block\<rparr>
                  in Some (Inr (data_of block, s7)))"

definition free :: "addr \<Rightarrow> state \<Rightarrow> state result" where
  "free data s =
     (let block = getHeader data in
      if block = 0 then Inl NullDeref
      else
        case (if searchMode s \<noteq> SegregatedList \<and> canCoalesce s block
              then coalesce block s else Inr (block, s)) of
          Inl e \<Rightarrow> Inl e
        | Inr (block1, s1) \<Rightarrow>
            let s2 = set_used block1 False s1
            in Inr (if searchMode s2 = FreeList
                    then s2\<lparr>free_list := free_list s2 @ [block1]\<rparr> else s2))"

section \<open>Traversal\<close>

text \<open>
  The callback of \<^verbatim>\<open>visit\<close> is an observer: the model hands it each block by appending
  the block's address to a log, and the log is what a traversal returns.
\<close>

partial_function (option) visit_loop ::
  "addr \<Rightarrow> addr list \<Rightarrow> state \<Rightarrow> addr list option" where
  "visit_loop block log s =
     (if block = 0 then Some log
      else visit_loop (b_next (mem s) block) (log @ [block]) s)"

definition visit :: "addr list \<Rightarrow> state \<Rightarrow> addr list option" where
  "visit log s = visit_loop (heapStart s) log s"

text \<open>The range-for of \<^verbatim>\<open>segregatedTraverse\<close> over the bucket table, by index.\<close>

fun segregatedTraverse_loop ::
  "nat list \<Rightarrow> addr list \<Rightarrow> state \<Rightarrow> (addr list \<times> state) option" where
  "segregatedTraverse_loop [] log s = Some (log, s)"
| "segregatedTraverse_loop (k # ks) log s =
     (let originalHeapStart = heapStart s;
          s1 = s\<lparr>heapStart := segregatedLists s k\<rparr>
      in case visit log s1 of
           None \<Rightarrow> None
         | Some log1 \<Rightarrow>
             segregatedTraverse_loop ks log1 (s1\<lparr>heapStart := originalHeapStart\<rparr>))"

definition segregatedTraverse :: "state \<Rightarrow> (addr list \<times> state) option" where
  "segregatedTraverse s = segregatedTraverse_loop [0 ..< nat num_buckets] [] s"

definition traverse :: "state \<Rightarrow> (addr list \<times> state) option" where
  "traverse s =
     (if searchMode s = SegregatedList then segregatedTraverse s
      else case visit [] s of None \<Rightarrow> None | Some log \<Rightarrow> Some (log, s))"

section \<open>Well-formed chains\<close>

text \<open>
  \<open>chain m p bs\<close>: following the \<^verbatim>\<open>next\<close> links in memory \<open>m\<close> from \<open>p\<close> visits exactly
  the blocks \<open>bs\<close>, in this order, and then reaches \<^verbatim>\<open>nullptr\<close>.
\<close>

fun chain :: "(addr \<Rightarrow> byte) \<Rightarrow> addr \<Rightarrow> addr list \<Rightarrow> bool" where
  "chain m p [] = (p = 0)"
| "chain m p (b # bs) = (p = b \<and> b \<noteq> 0 \<and> chain m (b_next m b) bs)"

section \<open>Runs and example heaps\<close>



text \<open>A header written into memory field by field.\<close>

definition put_block :: "addr \<Rightarrow> 64 word \<Rightarrow> bool \<Rightarrow> addr \<Rightarrow> (addr \<Rightarrow> byte) \<Rightarrow> addr \<Rightarrow> byte" where
  "put_block p sz u nx m =
     store64 (p + off_next) nx (store8 (p + off_used) (if u then 1 else 0) (store64 p sz m))"


text \<open>
  A segregated heap with one free block of 8 bytes in bucket 0, at 4096, and one used
  block of 16 bytes in bucket 1, at 4128.
\<close>

definition ex_segregated :: state where
  "ex_segregated =
     \<lparr>mem = put_block 4128 16 True 0 (put_block 4096 8 False 0 (\<lambda>_. 0)),
      brk = 4168, brk_max = 65536, heapStart = 0, top_blk = 0,
      searchMode = SegregatedList, searchStart = 0, free_list = [],
      segregatedLists = (\<lambda>_. 0)(0 := 4096, 1 := 4128),
      segregatedTops = (\<lambda>_. 0)(0 := 4096, 1 := 4128)\<rparr>"


section \<open>The block that \<open>alloc\<close> chains a new block to\<close>

text \<open>
  \<open>tail_of sz s\<close> is the block whose \<^verbatim>\<open>next\<close> field \<open>alloc\<close> sets when it grows the
  heap for a request of aligned size \<open>sz\<close>: \<^verbatim>\<open>top\<close>, or the tail of the bucket in segregated
  mode. \<open>next_overlaps t b\<close>: the \<^verbatim>\<open>next\<close> field of the header at \<open>t\<close> shares a byte
  with the \<^verbatim>\<open>size\<close> or the \<^verbatim>\<open>used\<close> field of the header at \<open>b\<close>.
\<close>

definition tail_of :: "64 word \<Rightarrow> state \<Rightarrow> addr" where
  "tail_of sz s =
     (if searchMode s = SegregatedList then segregatedTops s (nat (getBucket sz))
      else top_blk s)"


section \<open>The step of the next-fit scan\<close>

text \<open>
  The block that the loop of \<^verbatim>\<open>nextFit\<close> moves to from a block it has rejected (lines
  138 to 142): the successor, or the start of the chain after the last block.
\<close>

definition nextFit_step :: "state \<Rightarrow> addr \<Rightarrow> addr" where
  "nextFit_step s block =
     (if b_next (mem s) block = 0 then heapStart s else b_next (mem s) block)"

section \<open>Evaluation\<close>

lemmas size_defs = sizeof_word_t_def sizeof_Block_def sizeof_data_def allocSize_def
  align_def to_int_def getBucket_def num_buckets_def data_of_def getHeader_def
  off_used_def off_next_def

lemmas store_defs = set_size_def set_used_def set_next_def sbrk_def
  requestFromOS_def boot_def init_def resetHeap_def
  b_size_def b_used_def b_next_def load64_def store64_def store8_def

lemmas loop_simps = firstFit_loop.simps nextFit_loop.simps visit_loop.simps

lemmas op_defs = alloc_def free_def findBlock_def listAllocate_def split_def canSplit_def
  coalesce_def canCoalesce_def freeList_def firstFit_def nextFit_def bestFit_def
  segregatedFit_def Let_def

section \<open>Alignment\<close>

lemma and_not_mask3: "(w::64 word) AND NOT (mask 3) = push_bit 3 (drop_bit 3 w)"
  by (rule bit_word_eqI) (auto simp: bit_simps)

lemma align_shift: "align x = push_bit 3 (drop_bit 3 (x + 7))"
proof -
  have "sizeof_word_t - 1 = (mask 3 :: 64 word)"
    by (simp add: sizeof_word_t_def mask_eq_exp_minus_1)
  moreover have "x + sizeof_word_t - 1 = x + 7"
    by (simp add: sizeof_word_t_def)
  ultimately show ?thesis
    unfolding align_def by (simp only: and_not_mask3)
qed

lemma unat_round_down: "unat (push_bit 3 (drop_bit 3 (w::64 word))) = unat w div 8 * 8"
proof -
  have "unat w div 8 * 8 \<le> unat w" by simp
  also have "unat w < 2 ^ 64" using unsigned_less [of w] by simp
  finally have lt: "unat w div 8 * 8 < 2 ^ 64" .
  have "unat (push_bit 3 (drop_bit 3 w)) = take_bit 64 (push_bit 3 (unat (drop_bit 3 w)))"
    by (simp add: unsigned_push_bit_eq)
  also have "\<dots> = take_bit 64 (unat w div 8 * 8)"
    by (simp add: unat_drop_bit_eq drop_bit_eq_div push_bit_eq_mult mult.commute unat_div)
  also have "\<dots> = unat w div 8 * 8" using lt by (simp add: take_bit_nat_eq_self_iff)
  finally show ?thesis .
qed

lemma unat_align: "unat (align x) = ((unat x + 7) mod 2 ^ 64) div 8 * 8"
  by (simp add: align_shift unat_round_down unat_word_ariths)

lemma unat_align_small:
  assumes "x \<le> 2 ^ 64 - 8"
  shows "unat (align x) = (unat x + 7) div 8 * 8"
proof -
  from assms have "unat x \<le> unat (2 ^ 64 - 8 :: 64 word)" by (simp add: word_le_nat_alt)
  then have "unat x + 7 < 2 ^ 64" by simp
  then show ?thesis by (simp add: unat_align)
qed

lemma align_ge: "x \<le> 2 ^ 64 - 8 \<Longrightarrow> x \<le> align x"
  by (simp add: word_le_nat_alt unat_align_small)

lemma align_dvd: "8 dvd unat (align x)"
  by (simp add: unat_align)

lemma align_least:
  assumes "x \<le> 2 ^ 64 - 8" "x \<le> y" "8 dvd unat y"
  shows "align x \<le> y"
  using assms(2,3) by (simp add: word_le_nat_alt unat_align_small [OF assms(1)]) presburger

lemma align_idem: "align (align x) = align x"
proof -
  have "unat (align x) < 2 ^ 64" using unsigned_less [of "align x"] by simp
  moreover have "8 dvd unat (align x)" by (rule align_dvd)
  ultimately have "unat (align x) + 7 < 2 ^ 64" by (auto simp: dvd_def)
  then have "unat (align (align x)) = (unat (align x) + 7) div 8 * 8"
    by (simp add: unat_align [of "align x"])
  also have "\<dots> = unat (align x)" using align_dvd [of x] by presburger
  finally show ?thesis by (simp add: word_unat_eq_iff)
qed

text \<open>
  Claim C9, as stated, at the largest \<^verbatim>\<open>size_t\<close>: \<open>x + 7\<close> wraps around, \<open>align x\<close> is
  0, and \<open>align x \<ge> x\<close> fails.
\<close>

theorem align_ge_counterexample:
  "align 18446744073709551615 = 0 \<and> \<not> (18446744073709551615 :: 64 word) \<le> align 18446744073709551615"
  by (simp add: align_def sizeof_word_t_def)

text \<open>
  Claim C9, amended: \<open>align\<close> is idempotent and its result is a multiple of the word
  size for every \<open>x\<close>, and \<open>align 0 = 0\<close>; for every \<open>x\<close> up to \<open>2 ^ 64 - 8\<close>, the
  values on which \<open>x + 7\<close> does not wrap around, \<open>align x \<ge> x\<close> and \<open>align x\<close> is the
  smallest multiple of the word size that is at least \<open>x\<close>.
\<close>

theorem align_rounds_up:
  "align (align x) = align x \<and> align 0 = 0 \<and> unat sizeof_word_t dvd unat (align x) \<and>
   (x \<le> 2 ^ 64 - 8 \<longrightarrow>
      x \<le> align x \<and> (\<forall>y. x \<le> y \<and> unat sizeof_word_t dvd unat y \<longrightarrow> align x \<le> y))"
proof -
  have "align 0 = 0" by (simp add: align_def sizeof_word_t_def)
  moreover have "unat sizeof_word_t dvd unat (align x)"
    using align_dvd [of x] by (simp add: sizeof_word_t_def)
  moreover have "x \<le> align x" if "x \<le> 2 ^ 64 - 8"
    using that by (rule align_ge)
  moreover have "align x \<le> y" if "x \<le> 2 ^ 64 - 8" "x \<le> y" "unat sizeof_word_t dvd unat y" for y
    using that by (simp add: sizeof_word_t_def align_least)
  ultimately show ?thesis
    using align_idem [of x] by blast
qed

text \<open>The amended claim C9 at \<open>x = 13\<close>, whose alignment is 16, compared with \<open>y = 24\<close>.\<close>

theorem align_rounds_up_witness:
  "(13 :: 64 word) \<le> 2 ^ 64 - 8 \<and> (13 :: 64 word) \<le> 24 \<and> unat sizeof_word_t dvd unat (24 :: 64 word) \<and>
   align 13 = 16 \<and> 13 \<le> align 13 \<and> align 13 \<le> 24 \<and> align (align 13) = align 13"
proof -
  have h: "(13 :: 64 word) \<le> 2 ^ 64 - 8" by simp
  have d: "unat sizeof_word_t dvd unat (24 :: 64 word)" by (simp add: sizeof_word_t_def)
  have v: "align 13 = 16" by (simp add: align_def sizeof_word_t_def)
  have l: "(13 :: 64 word) \<le> 24" by simp
  note t = align_rounds_up [of 13]
  have a: "align (align 13) = align 13"
    using t by (rule conjunct1)
  have "(13 :: 64 word) \<le> 2 ^ 64 - 8 \<longrightarrow>
      13 \<le> align 13 \<and> (\<forall>y. 13 \<le> y \<and> unat sizeof_word_t dvd unat y \<longrightarrow> align 13 \<le> y)"
    using t by (rule conjunct2 [THEN conjunct2, THEN conjunct2])
  then have bc: "13 \<le> align 13 \<and> (\<forall>y. 13 \<le> y \<and> unat sizeof_word_t dvd unat y \<longrightarrow> align 13 \<le> y)"
    using h by (rule mp)
  have b: "13 \<le> align 13"
    using bc by (rule conjunct1)
  have "(13 :: 64 word) \<le> 24 \<and> unat sizeof_word_t dvd unat (24 :: 64 word) \<longrightarrow> align 13 \<le> 24"
    using bc [THEN conjunct2] by (rule spec)
  then have c: "align 13 \<le> 24"
    using conjI [OF l d] by (rule mp)
  from h l d v b c a show ?thesis by (intro conjI)
qed

section \<open>Size classes of the segregated mode\<close>

text \<open>
  Claim C1 on the code: \<open>getBucket\<close> sends the classes 8, 16, 32, 64, 128 to the
  indices 0, 1, 3, 7, 15, of which 7 and 15 lie outside the two tables of five entries,
  whose comments assign the classes to the indices 0 to 4. A request of 64 bytes in
  segregated mode reads \<^verbatim>\<open>segregatedLists[7]\<close>: the program checks nothing, and the
  model reports the access outside the table.
\<close>

theorem getBucket_size_classes:
  "getBucket 8 = 0 \<and> getBucket 16 = 1 \<and> getBucket 32 = 3 \<and> getBucket 64 = 7 \<and>
   getBucket 128 = 15 \<and>
   alloc 64 (init SegregatedList (boot 4096 65536)) = Some (Inl IndexOutOfBounds)"
  by (simp add: size_defs store_defs op_defs cong: let_weak_cong)

section \<open>Exhaustion of the backing store\<close>

text \<open>
  Claim C2 on the code: when the system refuses to move the break, \<open>requestFromOS\<close>
  returns \<^verbatim>\<open>nullptr\<close>, and \<open>alloc\<close> writes the size through this pointer (line 288)
  instead of reporting the failure. Here the break cannot move at all.
\<close>

theorem alloc_out_of_memory:
  "fst (requestFromOS 8 (init FirstFit (boot 4096 4096))) = 0 \<and>
   alloc 8 (init FirstFit (boot 4096 4096)) = Some (Inl NullDeref)"
  by (simp add: size_defs store_defs op_defs firstFit_loop.simps cong: let_weak_cong)

section \<open>Splitting in the explicit free-list mode\<close>

text \<open>
  Claim C3 on the code: a block of 128 bytes is allocated, freed and split by a request
  of 8 bytes. \<open>split\<close> pushes the block it was given, which \<open>listAllocate\<close> then marks
  used; the free remainder, 32 bytes further, of size 96, is not on the list.
\<close>

theorem split_registers_allocated_prefix:
  "case alloc 128 (init FreeList (boot 4096 65536)) of
     Some (Inr (p, s1)) \<Rightarrow>
       (case free p s1 of
          Inr s2 \<Rightarrow>
            (case alloc 8 s2 of
               Some (Inr (q, s3)) \<Rightarrow>
                 q = p \<and> free_list s3 = [getHeader q] \<and> b_used (mem s3) (getHeader q) \<and>
                 b_next (mem s3) (getHeader q) = getHeader q + allocSize 8 \<and>
                 \<not> b_used (mem s3) (getHeader q + allocSize 8) \<and>
                 b_size (mem s3) (getHeader q + allocSize 8) = 96 \<and>
                 getHeader q + allocSize 8 \<notin> set (free_list s3)
             | _ \<Rightarrow> False)
        | _ \<Rightarrow> False)
   | _ \<Rightarrow> False"
  by (simp add: size_defs store_defs op_defs cong: let_weak_cong)

section \<open>The guard of the splitter\<close>

text \<open>
  Claim C4 on the code: a free block of 16 bytes and a request of 8 bytes. The block has
  room for the 8 bytes and 8 more, less than the 24 bytes of a header; \<open>canSplit\<close>
  holds all the same, and the remainder that \<open>split\<close> creates has the size
  \<open>16 - allocSize 8\<close>, which wraps around to \<open>2 ^ 64 - 16\<close>.
\<close>

theorem canSplit_admits_underflow:
  "case alloc 16 (init FirstFit (boot 4096 65536)) of
     Some (Inr (p, s1)) \<Rightarrow>
       (case free p s1 of
          Inr s2 \<Rightarrow>
            b_size (mem s2) (getHeader p) = 16 \<and> \<not> b_used (mem s2) (getHeader p) \<and>
            canSplit s2 (getHeader p) 8 \<and>
            (case alloc 8 s2 of
               Some (Inr (q, s3)) \<Rightarrow>
                 q = p \<and> b_next (mem s3) (getHeader q) = getHeader q + allocSize 8 \<and>
                 b_size (mem s3) (getHeader q + allocSize 8) = 16 - allocSize 8 \<and>
                 16 - allocSize 8 = 2 ^ 64 - 16
             | _ \<Rightarrow> False)
        | _ \<Rightarrow> False)
   | _ \<Rightarrow> False"
  by (simp add: size_defs store_defs op_defs firstFit_loop.simps cong: let_weak_cong)

section \<open>Best fit\<close>

text \<open>One step of the loop of \<open>bestFit\<close>, by the branch it takes.\<close>

lemma bestFit_loop_null: "bestFit_loop sz 0 best s = Some best"
  by (simp add: bestFit_loop.simps)

lemma bestFit_loop_skip:
  "block \<noteq> 0 \<Longrightarrow> b_used (mem s) block \<or> b_size (mem s) block < sz \<Longrightarrow>
   bestFit_loop sz block best s = bestFit_loop sz (b_next (mem s) block) best s"
  by (subst bestFit_loop.simps) simp

lemma bestFit_loop_better:
  "block \<noteq> 0 \<Longrightarrow> \<not> b_used (mem s) block \<Longrightarrow> \<not> b_size (mem s) block < sz \<Longrightarrow>
   best = 0 \<or> b_size (mem s) block < b_size (mem s) best \<Longrightarrow>
   bestFit_loop sz block best s = bestFit_loop sz (b_next (mem s) block) block s"
  by (subst bestFit_loop.simps) simp


lemma bestFit_loop_stuck:
  assumes "block \<noteq> 0" "\<not> b_used (mem s) block" "\<not> b_size (mem s) block < sz"
    "best \<noteq> 0" "\<not> b_size (mem s) block < b_size (mem s) best"
  shows "bestFit_loop sz block best s = None"
proof (rule ccontr)
  assume "bestFit_loop sz block best s \<noteq> None"
  then obtain r where r: "bestFit_loop sz block best s = Some r" by auto
  let ?P = "\<lambda>sz' block' best' s' (r'::addr). \<not> (sz' = sz \<and> block' = block \<and> best' = best \<and> s' = s)"
  have "?P sz block best s r"
  proof (rule bestFit_loop.raw_induct [where P = ?P, OF _ r])
    fix f sz' block' best' s' r'
    assume ih: "\<And>a b c d y. f a b c d = Some y \<Longrightarrow> ?P a b c d y"
      and step: "(if block' = 0 then Some best'
          else if b_used (mem s') block' \<or> b_size (mem s') block' < sz'
               then f sz' (b_next (mem s') block') best' s'
               else if best' = 0 \<or> b_size (mem s') block' < b_size (mem s') best'
                    then f sz' (b_next (mem s') block') block' s'
                    else f sz' block' best' s') = Some r'"
    show "?P sz' block' best' s' r'"
    proof
      assume e: "sz' = sz \<and> block' = block \<and> best' = best \<and> s' = s"
      with step assms have "f sz block best s = Some r'" by simp
      with ih show False by blast
    qed
  qed
  then show False by simp
qed

text \<open>
  Claim C5 on the code: two blocks of 16 bytes are allocated and freed, the first before
  the second, so that they are not merged. The chain then holds two free blocks of equal
  size and the request of 16 bytes fits both: the loop takes the first as \<open>best\<close>,
  reaches the second, which is not smaller, and stays on it. \<open>bestFit\<close> and \<open>alloc\<close>
  never return.
\<close>

text \<open>
  Claim C5 on the code: two blocks of 16 bytes are allocated and freed, the first before
  the second, so that they are not merged. The chain then holds two free blocks of equal
  size and the request of 16 bytes fits both: the loop takes the first as \<open>best\<close>,
  reaches the second, which is not smaller, and stays on it. \<open>bestFit\<close> and \<open>alloc\<close>
  never return.
\<close>

theorem bestFit_equal_blocks_hang:
  "case alloc 16 (init BestFit (boot 4096 65536)) of
     Some (Inr (a, s1)) \<Rightarrow>
       (case alloc 16 s1 of
          Some (Inr (b, s2)) \<Rightarrow>
            (case free a s2 of
               Inr s3 \<Rightarrow>
                 (case free b s3 of
                    Inr s4 \<Rightarrow>
                      visit [] s4 = Some [getHeader a, getHeader b] \<and>
                      b_size (mem s4) (getHeader a) = 16 \<and> \<not> b_used (mem s4) (getHeader a) \<and>
                      b_size (mem s4) (getHeader b) = 16 \<and> \<not> b_used (mem s4) (getHeader b) \<and>
                      bestFit 16 s4 = None \<and> alloc 16 s4 = None
                  | _ \<Rightarrow> False)
             | _ \<Rightarrow> False)
        | _ \<Rightarrow> False)
   | _ \<Rightarrow> False"
  by (simp add: size_defs store_defs alloc_def free_def findBlock_def listAllocate_def
      split_def canSplit_def coalesce_def canCoalesce_def visit_def visit_loop.simps bestFit_def
      bestFit_loop_null bestFit_loop_skip bestFit_loop_better bestFit_loop_stuck
      Let_def cong: let_weak_cong)

section \<open>Loads and stores\<close>

text \<open>
  A load returns what the last store at the same address wrote, and a store leaves alone
  what lies outside its eight bytes.
\<close>


lemma byte_roundtrip: "(ucast (ucast (w::64 word) :: byte) :: 64 word) = take_bit 8 w"
  by (rule bit_word_eqI) (auto simp: bit_simps)

lemma le_bytes:
  "take_bit 8 v OR push_bit 8 (take_bit 8 (drop_bit 8 v)) OR
   push_bit 16 (take_bit 8 (drop_bit 16 v)) OR push_bit 24 (take_bit 8 (drop_bit 24 v)) OR
   push_bit 32 (take_bit 8 (drop_bit 32 v)) OR push_bit 40 (take_bit 8 (drop_bit 40 v)) OR
   push_bit 48 (take_bit 8 (drop_bit 48 v)) OR push_bit 56 (take_bit 8 (drop_bit 56 v)) = (v :: 64 word)"
proof (rule bit_word_eqI)
  fix n :: nat
  assume "n < LENGTH(64)"
  then have n: "n < 64" by simp
  then consider "n < 8" | "8 \<le> n" "n < 16" | "16 \<le> n" "n < 24" | "24 \<le> n" "n < 32"
    | "32 \<le> n" "n < 40" | "40 \<le> n" "n < 48" | "48 \<le> n" "n < 56" | "56 \<le> n" "n < 64"
    by linarith
  then show "bit (take_bit 8 v OR push_bit 8 (take_bit 8 (drop_bit 8 v)) OR
   push_bit 16 (take_bit 8 (drop_bit 16 v)) OR push_bit 24 (take_bit 8 (drop_bit 24 v)) OR
   push_bit 32 (take_bit 8 (drop_bit 32 v)) OR push_bit 40 (take_bit 8 (drop_bit 40 v)) OR
   push_bit 48 (take_bit 8 (drop_bit 48 v)) OR push_bit 56 (take_bit 8 (drop_bit 56 v))) n = bit v n"
    by cases (auto simp: bit_simps)
qed

lemma store64_at:
  "store64 p v m p = ucast v" "store64 p v m (p + 1) = ucast (drop_bit 8 v)"
  "store64 p v m (p + 2) = ucast (drop_bit 16 v)" "store64 p v m (p + 3) = ucast (drop_bit 24 v)"
  "store64 p v m (p + 4) = ucast (drop_bit 32 v)" "store64 p v m (p + 5) = ucast (drop_bit 40 v)"
  "store64 p v m (p + 6) = ucast (drop_bit 48 v)" "store64 p v m (p + 7) = ucast (drop_bit 56 v)"
  by (simp_all add: store64_def)

lemma load64_store64_same: "load64 (store64 p v m) p = v"
  by (simp add: load64_def store64_at byte_roundtrip le_bytes)







section \<open>Coalescing on free\<close>

text \<open>
  Claim C6 on the code: a block of 128 bytes is allocated and freed, and two requests of
  8 bytes split it twice. \<open>split\<close> never moves \<^verbatim>\<open>top\<close>, which stays on the first block,
  4096, while the chain is 4096, 4128, 4160 and its last block is the free remainder at
  4160. Freeing the block at 4128 merges 4160 into it: the size is the sum and the
  traversal no longer visits 4160. But \<open>coalesce\<close> compares the successor with \<^verbatim>\<open>top\<close>,
  not with the end of the chain, so \<^verbatim>\<open>top\<close> is not moved to 4128; the next growth chains
  the new block to 4096 and the merged block drops out of the chain.
\<close>

theorem coalesce_leaves_stale_top:
  "case alloc 128 (init FirstFit (boot 4096 65536)) of
     Some (Inr (a, s1)) \<Rightarrow>
       (case free a s1 of
          Inr s2 \<Rightarrow>
            (case alloc 8 s2 of
               Some (Inr (p, s3)) \<Rightarrow>
                 (case alloc 8 s3 of
                    Some (Inr (b, s4)) \<Rightarrow>
                      getHeader b = 4128 \<and> visit [] s4 = Some [4096, 4128, 4160] \<and>
                      \<not> b_used (mem s4) 4160 \<and> top_blk s4 = 4096 \<and>
                      (case free b s4 of
                         Inr s5 \<Rightarrow>
                           b_size (mem s5) 4128 = b_size (mem s4) 4128 + b_size (mem s4) 4160 \<and>
                           visit [] s5 = Some [4096, 4128] \<and>
                           top_blk s5 = 4096 \<and> top_blk s5 \<noteq> getHeader b \<and>
                           (case alloc 128 s5 of
                              Some (Inr (c, s6)) \<Rightarrow>
                                getHeader c = 4248 \<and> visit [] s6 = Some [4096, 4248]
                            | _ \<Rightarrow> False)
                       | _ \<Rightarrow> False)
                  | _ \<Rightarrow> False)
             | _ \<Rightarrow> False)
        | _ \<Rightarrow> False)
   | _ \<Rightarrow> False"
  by (simp add: size_defs store_defs op_defs loop_simps visit_def cong: let_weak_cong)

section \<open>What a successful search returns\<close>



lemma set_fields [simp]:
  "heapStart (set_size p v s) = heapStart s" "heapStart (set_used p u s) = heapStart s"
  "heapStart (set_next p q s) = heapStart s"
  "searchStart (set_size p v s) = searchStart s" "searchStart (set_used p u s) = searchStart s"
  "searchStart (set_next p q s) = searchStart s"
  "searchMode (set_size p v s) = searchMode s" "searchMode (set_used p u s) = searchMode s"
  "searchMode (set_next p q s) = searchMode s"
  "top_blk (set_size p v s) = top_blk s" "top_blk (set_used p u s) = top_blk s"
  "top_blk (set_next p q s) = top_blk s"
  "segregatedTops (set_size p v s) = segregatedTops s"
  "segregatedTops (set_used p u s) = segregatedTops s"
  "segregatedTops (set_next p q s) = segregatedTops s"
  "brk (set_size p v s) = brk s" "brk (set_used p u s) = brk s" "brk (set_next p q s) = brk s"
  by (simp_all add: set_size_def set_used_def set_next_def)

lemma store8_same: "store8 q v m q = v"
  by (simp add: store8_def)

lemma store64_above: "store64 p v m (p + 8) = m (p + 8)"
  by (simp add: store64_def)

lemma header_after_mark:
  "b_size (mem (set_size b sz (set_used b True s))) b = sz"
  "b_used (mem (set_size b sz (set_used b True s))) b"
  by (simp_all add: set_size_def set_used_def b_size_def b_used_def off_used_def
      load64_store64_same store64_above store8_same)

lemma split_result:
  assumes "split block sz s = Inr (b, s')"
  shows "b = block \<and> heapStart s' = heapStart s \<and> searchStart s' = searchStart s \<and>
         searchMode s' = searchMode s \<and> top_blk s' = top_blk s \<and>
         segregatedTops s' = segregatedTops s \<and> brk s' = brk s"
  using assms by (auto simp: split_def Let_def split: if_splits)

lemma listAllocate_result:
  assumes "listAllocate block sz s = Inr (b, s')"
  shows "b = block \<and> b \<noteq> 0 \<and> b_size (mem s') b = sz \<and> b_used (mem s') b \<and>
         heapStart s' = heapStart s \<and> searchStart s' = searchStart s \<and>
         searchMode s' = searchMode s \<and> top_blk s' = top_blk s \<and>
         segregatedTops s' = segregatedTops s \<and> brk s' = brk s"
proof (cases "searchMode s \<noteq> SegregatedList \<and> canSplit s block sz")
  case True
  with assms obtain b1 s1 where sp: "split block sz s = Inr (b1, s1)"
    and r: "b = b1" "s' = set_size b1 sz (set_used b1 True s1)" and nz: "block \<noteq> 0"
    by (auto simp: listAllocate_def split: if_splits sum.splits)
  from split_result [OF sp] r nz show ?thesis
    by (simp add: header_after_mark)
next
  case False
  with assms have "b = block" "block \<noteq> 0" "s' = set_size block sz (set_used block True s)"
    by (auto simp: listAllocate_def split: if_splits)
  then show ?thesis by (simp add: header_after_mark)
qed

lemma firstFit_loop_result:
  assumes "firstFit_loop sz block s = Some (Inr (b, s'))"
  shows "heapStart s' = heapStart s \<and> searchMode s' = searchMode s \<and>
         searchStart s' = searchStart s \<and> top_blk s' = top_blk s \<and>
         segregatedTops s' = segregatedTops s \<and> brk s' = brk s \<and>
         (b \<noteq> 0 \<longrightarrow> b_size (mem s') b = sz \<and> b_used (mem s') b)"
proof -
  let ?P = "\<lambda>sz (block::addr) (s::state) (r::(addr \<times> state) result). \<forall>b (s'::state). r = Inr (b, s') \<longrightarrow>
      heapStart s' = heapStart s \<and> searchMode s' = searchMode s \<and>
      searchStart s' = searchStart s \<and> top_blk s' = top_blk s \<and>
      segregatedTops s' = segregatedTops s \<and> brk s' = brk s \<and>
      (b \<noteq> 0 \<longrightarrow> b_size (mem s') b = sz \<and> b_used (mem s') b)"
  have "?P sz block s (Inr (b, s'))"
  proof (rule firstFit_loop.raw_induct [where P = ?P, OF _ assms])
    fix f sz block s r
    assume ih: "\<And>sz block s r. f sz block s = Some r \<Longrightarrow> ?P sz block s r"
      and step: "(if block = 0 then Some (Inr (0, s))
          else if b_used (mem s) block \<or> b_size (mem s) block < sz
               then f sz (b_next (mem s) block) s
               else Some (listAllocate block sz s)) = Some r"
    show "?P sz block s r"
    proof (cases "block = 0")
      case True
      with step show ?thesis by auto
    next
      case False
      show ?thesis
      proof (cases "b_used (mem s) block \<or> b_size (mem s) block < sz")
        case True
        with False step have "f sz (b_next (mem s) block) s = Some r" by simp
        then show ?thesis by (rule ih)
      next
        case skip: False
        with False step have "r = listAllocate block sz s" by simp
        then show ?thesis by (auto dest: listAllocate_result)
      qed
    qed
  qed
  then show ?thesis by simp
qed

lemma nextFit_loop_result:
  assumes "nextFit_loop sz start block s = Some (Inr (b, s'))"
  shows "heapStart s' = heapStart s \<and> searchMode s' = searchMode s \<and>
         top_blk s' = top_blk s \<and> segregatedTops s' = segregatedTops s \<and> brk s' = brk s \<and>
         (b = 0 \<longrightarrow> s' = s) \<and>
         (b \<noteq> 0 \<longrightarrow> b_size (mem s') b = sz \<and> b_used (mem s') b \<and> searchStart s' = b)"
proof -
  let ?P = "\<lambda>sz (start::addr) (block::addr) (s::state) (r::(addr \<times> state) result). \<forall>b (s'::state). r = Inr (b, s') \<longrightarrow>
      heapStart s' = heapStart s \<and> searchMode s' = searchMode s \<and>
      top_blk s' = top_blk s \<and> segregatedTops s' = segregatedTops s \<and> brk s' = brk s \<and>
      (b = 0 \<longrightarrow> s' = s) \<and>
      (b \<noteq> 0 \<longrightarrow> b_size (mem s') b = sz \<and> b_used (mem s') b \<and> searchStart s' = b)"
  have "?P sz start block s (Inr (b, s'))"
  proof (rule nextFit_loop.raw_induct [where P = ?P, OF _ assms])
    fix f sz start block s r
    assume ih: "\<And>sz start block s r. f sz start block s = Some r \<Longrightarrow> ?P sz start block s r"
      and step: "(if block = 0 then Some (Inr (0, s))
          else if b_used (mem s) block \<or> b_size (mem s) block < sz
               then let block1 = b_next (mem s) block;
                        block2 = if block1 = 0 then heapStart s else block1
                    in if block2 = start then Some (Inr (0, s)) else f sz start block2 s
               else Some (listAllocate block sz (s\<lparr>searchStart := block\<rparr>))) = Some r"
    show "?P sz start block s r"
    proof (cases "block = 0")
      case True
      with step show ?thesis by auto
    next
      case False
      show ?thesis
      proof (cases "b_used (mem s) block \<or> b_size (mem s) block < sz")
        case True
        define block2 where
          "block2 = (if b_next (mem s) block = 0 then heapStart s else b_next (mem s) block)"
        show ?thesis
        proof (cases "block2 = start")
          case True
          with False \<open>b_used (mem s) block \<or> b_size (mem s) block < sz\<close> step
          have "r = Inr (0, s)" by (simp add: Let_def block2_def)
          then show ?thesis by simp
        next
          case neq: False
          with False True step have "f sz start block2 s = Some r"
            by (simp add: Let_def block2_def)
          then show ?thesis by (rule ih)
        qed
      next
        case fit: False
        with False step have "r = listAllocate block sz (s\<lparr>searchStart := block\<rparr>)" by simp
        then show ?thesis by (auto dest: listAllocate_result)
      qed
    qed
  qed
  then show ?thesis by simp
qed

lemma bestFit_result:
  assumes "bestFit sz s = Some (Inr (b, s'))"
  shows "heapStart s' = heapStart s \<and> searchMode s' = searchMode s \<and>
         top_blk s' = top_blk s \<and> segregatedTops s' = segregatedTops s \<and> brk s' = brk s \<and>
         (b \<noteq> 0 \<longrightarrow> b_size (mem s') b = sz \<and> b_used (mem s') b)"
  using assms
  by (auto simp: bestFit_def split: option.splits if_splits dest: listAllocate_result)

lemma freeList_result:
  assumes "freeList sz s = Inr (b, s')"
  shows "heapStart s' = heapStart s \<and> searchMode s' = searchMode s \<and>
         top_blk s' = top_blk s \<and> segregatedTops s' = segregatedTops s \<and> brk s' = brk s \<and>
         (b \<noteq> 0 \<longrightarrow> b_size (mem s') b = sz \<and> b_used (mem s') b)"
  using assms
  by (auto simp: freeList_def split: sum.splits if_splits dest: listAllocate_result)

lemma segregatedFit_result:
  assumes "segregatedFit sz s = Some (Inr (b, s'))"
  shows "heapStart s' = heapStart s \<and> searchMode s' = searchMode s \<and>
         top_blk s' = top_blk s \<and> segregatedTops s' = segregatedTops s \<and> brk s' = brk s \<and>
         (b \<noteq> 0 \<longrightarrow> b_size (mem s') b = sz \<and> b_used (mem s') b)"
proof -
  let ?s0 = "s\<lparr>heapStart := segregatedLists s (nat (getBucket sz))\<rparr>"
  from assms obtain s1 where ff: "firstFit_loop sz (heapStart ?s0) ?s0 = Some (Inr (b, s1))"
    and s': "s' = s1\<lparr>heapStart := heapStart s\<rparr>"
    by (auto simp: segregatedFit_def firstFit_def Let_def
        split: if_splits option.splits sum.splits)
  from firstFit_loop_result [OF ff] s' show ?thesis by simp
qed

lemma findBlock_result:
  assumes "findBlock sz s = Some (Inr (b, s'))"
  shows "heapStart s' = heapStart s \<and> searchMode s' = searchMode s \<and>
         top_blk s' = top_blk s \<and> segregatedTops s' = segregatedTops s \<and> brk s' = brk s \<and>
         (b \<noteq> 0 \<longrightarrow> b_size (mem s') b = sz \<and> b_used (mem s') b)"
proof (cases "searchMode s")
  case FirstFit
  with assms have "firstFit_loop sz (heapStart s) s = Some (Inr (b, s'))"
    by (simp add: findBlock_def firstFit_def)
  from firstFit_loop_result [OF this] show ?thesis by simp
next
  case NextFit
  let ?s1 = "if searchStart s = 0 then s\<lparr>searchStart := heapStart s\<rparr> else s"
  from NextFit assms
  have "nextFit_loop sz (searchStart ?s1) (searchStart ?s1) ?s1 = Some (Inr (b, s'))"
    by (simp add: findBlock_def nextFit_def Let_def)
  from nextFit_loop_result [OF this] show ?thesis by (simp split: if_splits)
next
  case BestFit
  with assms have "bestFit sz s = Some (Inr (b, s'))" by (simp add: findBlock_def)
  then show ?thesis by (rule bestFit_result)
next
  case FreeList
  with assms have "freeList sz s = Inr (b, s')" by (simp add: findBlock_def)
  then show ?thesis by (rule freeList_result)
next
  case SegregatedList
  with assms have "segregatedFit sz s = Some (Inr (b, s'))" by (simp add: findBlock_def)
  then show ?thesis by (rule segregatedFit_result)
qed

lemma requestFromOS_fields:
  assumes "requestFromOS sz s = (block, s')"
  shows "mem s' = mem s \<and> heapStart s' = heapStart s \<and> searchMode s' = searchMode s \<and>
         top_blk s' = top_blk s \<and> searchStart s' = searchStart s \<and>
         segregatedLists s' = segregatedLists s \<and> segregatedTops s' = segregatedTops s"
  using assms by (auto simp: requestFromOS_def sbrk_def Let_def split: if_splits)

lemma requestFromOS_block:
  assumes "requestFromOS sz s = (block, s')" "block \<noteq> 0"
  shows "block = brk s \<and> brk s' = brk s + allocSize sz"
  using assms by (auto simp: requestFromOS_def sbrk_def Let_def split: if_splits)

lemma alloc_cases:
  assumes "alloc n s = Some (Inr (h, s'))"
  obtains (found) b where "findBlock (align n) s = Some (Inr (b, s'))" "b \<noteq> 0" "h = data_of b"
  | (grown) s1 where "findBlock (align n) s = Some (Inr (0, s1))"
      "brk s \<noteq> 0" "h = data_of (brk s)"
      "mem s' =
         (if tail_of (align n) s \<noteq> 0
          then store64 (tail_of (align n) s + off_next) (brk s)
                 (mem (set_used (brk s) True (set_size (brk s) (align n) s1)))
          else mem (set_used (brk s) True (set_size (brk s) (align n) s1)))"
      "heapStart s' =
         (if searchMode s \<noteq> SegregatedList \<and> heapStart s = 0 then brk s else heapStart s)"
proof -
  from assms obtain b s1 where fb: "findBlock (align n) s = Some (Inr (b, s1))"
    by (auto simp: alloc_def Let_def split: option.splits sum.splits)
  note fr = findBlock_result [OF fb]
  show ?thesis
  proof (cases "b = 0")
    case False
    with assms fb have "h = data_of b" "s' = s1" by (auto simp: alloc_def Let_def)
    with fb False show ?thesis by (auto intro: found)
  next
    case True
    obtain block s2 where rq: "requestFromOS (align n) s1 = (block, s2)"
      by (cases "requestFromOS (align n) s1")
    from assms fb True rq have nz: "block \<noteq> 0" and h: "h = data_of block"
      by (auto simp: alloc_def Let_def split: if_splits)
    from requestFromOS_block [OF rq nz] fr have blk: "block = brk s" by simp
    note rf = requestFromOS_fields [OF rq]
    have m2: "mem (set_used block True (set_size block (align n) s2)) =
        mem (set_used block True (set_size block (align n) s1))"
      using rf by (simp add: set_used_def set_size_def)
    from assms fb True rq nz fr rf
    have "mem s' =
         (if tail_of (align n) s \<noteq> 0
          then store64 (tail_of (align n) s + off_next) block
                 (mem (set_used block True (set_size block (align n) s2)))
          else mem (set_used block True (set_size block (align n) s2))) \<and>
      heapStart s' =
         (if searchMode s \<noteq> SegregatedList \<and> heapStart s = 0 then block else heapStart s)"
      by (auto simp: alloc_def Let_def tail_of_def set_next_def split: if_splits)
    with fb True nz h blk m2 show ?thesis by (auto intro: grown)
  qed
qed





section \<open>Next fit\<close>

text \<open>One step of the loop of \<open>nextFit\<close>, by the branch it takes, and a scan caught
  between two blocks.\<close>

lemma nextFit_loop_null: "nextFit_loop sz start 0 s = Some (Inr (0, s))"
  by (subst nextFit_loop.simps) simp

lemma nextFit_loop_fit:
  "block \<noteq> 0 \<Longrightarrow> \<not> b_used (mem s) block \<Longrightarrow> \<not> b_size (mem s) block < sz \<Longrightarrow>
   nextFit_loop sz start block s = Some (listAllocate block sz (s\<lparr>searchStart := block\<rparr>))"
  by (subst nextFit_loop.simps) simp


lemma nextFit_loop_around:
  "block \<noteq> 0 \<Longrightarrow> b_used (mem s) block \<or> b_size (mem s) block < sz \<Longrightarrow>
   nextFit_step s block = start \<Longrightarrow>
   nextFit_loop sz start block s = Some (Inr (0, s))"
  by (subst nextFit_loop.simps) (simp add: nextFit_step_def Let_def)

lemma nextFit_loop_cycle:
  assumes "x \<noteq> 0" "b_used (mem s) x \<or> b_size (mem s) x < sz" "nextFit_step s x = y"
    and "y \<noteq> 0" "b_used (mem s) y \<or> b_size (mem s) y < sz" "nextFit_step s y = x"
    and "x \<noteq> start" "y \<noteq> start"
  shows "nextFit_loop sz start x s = None"
proof (rule ccontr)
  assume "nextFit_loop sz start x s \<noteq> None"
  then obtain r where r: "nextFit_loop sz start x s = Some r" by auto
  let ?P = "\<lambda>sz' start' block' (s'::state) (r'::(addr \<times> state) result).
    \<not> (sz' = sz \<and> start' = start \<and> s' = s \<and> (block' = x \<or> block' = y))"
  have "?P sz start x s r"
  proof (rule nextFit_loop.raw_induct [where P = ?P, OF _ r])
    fix f sz' start' block' s' r'
    assume ih: "\<And>a b c d e. f a b c d = Some e \<Longrightarrow> ?P a b c d e"
      and step: "(if block' = 0 then Some (Inr (0, s'))
          else if b_used (mem s') block' \<or> b_size (mem s') block' < sz'
               then let block1 = b_next (mem s') block';
                        block2 = if block1 = 0 then heapStart s' else block1
                    in if block2 = start' then Some (Inr (0, s')) else f sz' start' block2 s'
               else Some (listAllocate block' sz' (s'\<lparr>searchStart := block'\<rparr>))) = Some r'"
    show "?P sz' start' block' s' r'"
    proof
      assume e: "sz' = sz \<and> start' = start \<and> s' = s \<and> (block' = x \<or> block' = y)"
      then consider "block' = x" | "block' = y" by blast
      then have "f sz start x s = Some r' \<or> f sz start y s = Some r'"
      proof cases
        case 1
        with e step assms have "f sz start y s = Some r'"
          by (simp add: nextFit_step_def Let_def split: if_splits)
        then show ?thesis by simp
      next
        case 2
        with e step assms have "f sz start x s = Some r'"
          by (simp add: nextFit_step_def Let_def split: if_splits)
        then show ?thesis by simp
      qed
      with ih show False by blast
    qed
  qed
  then show False by simp
qed

lemma nextFit_loop_advance:
  assumes "block \<noteq> 0" "b_used (mem s) block \<or> b_size (mem s) block < sz"
    and "nextFit_step s block \<noteq> start"
    and "nextFit_step s block = 0 \<or> block = start \<or>
         nextFit_step s (nextFit_step s block) \<noteq> block \<or>
         \<not> (b_used (mem s) (nextFit_step s block) \<or> b_size (mem s) (nextFit_step s block) < sz)"
  shows "nextFit_loop sz start block s = nextFit_loop sz start (nextFit_step s block) s"
  using assms(1-3) by (subst nextFit_loop.simps) (simp add: nextFit_step_def Let_def)

lemma nextFit_loop_cycle2:
  assumes "x \<noteq> 0" "b_used (mem s) x \<or> b_size (mem s) x < sz"
    and "nextFit_step s x \<noteq> 0"
    and "b_used (mem s) (nextFit_step s x) \<or> b_size (mem s) (nextFit_step s x) < sz"
    and "nextFit_step s (nextFit_step s x) = x"
    and "x \<noteq> start" "nextFit_step s x \<noteq> start"
  shows "nextFit_loop sz start x s = None"
  using assms by (intro nextFit_loop_cycle [where y = "nextFit_step s x"]) simp_all

text \<open>
  Claim C8 on the code: three blocks of 8 bytes \<open>a\<close>, \<open>b\<close>, \<open>c\<close> are allocated;
  \<open>b\<close> is freed and allocated again, which puts the cursor on it, and freed again; then
  \<open>a\<close> is freed and absorbs \<open>b\<close>. \<open>coalesce\<close> does not move the cursor: it stays on the
  absorbed block, which is no longer on the chain \<open>a\<close>, \<open>c\<close>. No block fits a request
  of 32 bytes, and the scan, started on \<open>b\<close>, goes round \<open>c\<close> and \<open>a\<close> without ever
  coming back to its start: \<open>nextFit\<close> and \<open>alloc\<close> never return, where the claim has
  the scan end and the heap grow.
\<close>

theorem nextFit_stale_cursor_hangs:
  "case alloc 8 (init NextFit (boot 4096 65536)) of
     Some (Inr (a, s1)) \<Rightarrow>
       (case alloc 8 s1 of
          Some (Inr (b, s2)) \<Rightarrow>
            (case alloc 8 s2 of
               Some (Inr (c, s3)) \<Rightarrow>
                 (case free b s3 of
                    Inr s4 \<Rightarrow>
                      (case alloc 8 s4 of
                         Some (Inr (d, s5)) \<Rightarrow>
                           d = b \<and> searchStart s5 = getHeader d \<and>
                           (case free d s5 of
                              Inr s6 \<Rightarrow>
                                (case free a s6 of
                                   Inr s7 \<Rightarrow>
                                     visit [] s7 = Some [getHeader a, getHeader c] \<and>
                                     searchStart s7 = getHeader b \<and>
                                     b_size (mem s7) (getHeader a) = 16 \<and>
                                     b_used (mem s7) (getHeader c) \<and>
                                     nextFit 32 s7 = None \<and> alloc 32 s7 = None
                                 | _ \<Rightarrow> False)
                            | _ \<Rightarrow> False)
                       | _ \<Rightarrow> False)
                  | _ \<Rightarrow> False)
             | _ \<Rightarrow> False)
        | _ \<Rightarrow> False)
   | _ \<Rightarrow> False"
  by (simp add: size_defs store_defs alloc_def free_def findBlock_def listAllocate_def
      split_def canSplit_def coalesce_def canCoalesce_def nextFit_def Let_def visit_def
      visit_loop.simps nextFit_step_def
      nextFit_loop_null nextFit_loop_fit nextFit_loop_around nextFit_loop_advance
      nextFit_loop_cycle2 cong: let_weak_cong)

section \<open>Chains in memory\<close>

lemma chain_functional: "chain m p as \<Longrightarrow> chain m p bs \<Longrightarrow> as = bs"
proof (induction as arbitrary: p bs)
  case Nil
  then show ?case by (cases bs) auto
next
  case (Cons a as)
  then show ?case by (cases bs) auto
qed

lemma chain_suffix: "chain m p (xs @ b # bs) \<Longrightarrow> chain m b (b # bs)"
  by (induction xs arbitrary: p) auto

lemma chain_notin_tail:
  assumes "chain m p (b # bs)"
  shows "b \<notin> set bs"
proof
  assume "b \<in> set bs"
  then obtain us vs where bs: "bs = us @ b # vs" by (auto simp: in_set_conv_decomp)
  from assms have tl: "chain m (b_next m b) bs" by simp
  with bs have "chain m b (b # vs)" by (auto dest: chain_suffix)
  then have "chain m (b_next m b) vs" by simp
  with tl have "bs = vs" by (rule chain_functional)
  with bs show False by simp
qed

lemma chain_distinct: "chain m p bs \<Longrightarrow> distinct bs"
proof (induction bs arbitrary: p)
  case Nil
  show ?case by simp
next
  case (Cons b bs)
  from Cons.prems have "b \<notin> set bs" by (rule chain_notin_tail)
  moreover from Cons.prems have "chain m (b_next m b) bs" by simp
  then have "distinct bs" by (rule Cons.IH)
  ultimately show ?case by simp
qed

lemma chain_nonnull: "chain m p bs \<Longrightarrow> 0 \<notin> set bs"
  by (induction bs arbitrary: p) auto

lemma visit_loop_chain:
  "chain (mem s) p bs \<Longrightarrow> visit_loop p log s = Some (log @ bs)"
proof (induction bs arbitrary: p log)
  case Nil
  then show ?case by (simp add: visit_loop.simps)
next
  case (Cons b bs)
  from Cons.prems have p: "p = b" "b \<noteq> 0" and tl: "chain (mem s) (b_next (mem s) b) bs"
    by simp_all
  have "visit_loop p log s = visit_loop (b_next (mem s) b) (log @ [b]) s"
    using p by (subst visit_loop.simps) simp
  also have "\<dots> = Some ((log @ [b]) @ bs)" using tl by (rule Cons.IH)
  finally show ?case by simp
qed

section \<open>The head of the main chain in segregated mode\<close>

lemma coalesce_heapStart: "coalesce block s = Inr (b, s') \<Longrightarrow> heapStart s' = heapStart s"
  by (auto simp: coalesce_def Let_def split: if_splits)

lemma free_heapStart:
  assumes "free d s = Inr s'"
  shows "heapStart s' = heapStart s"
  using assms
  by (auto simp: free_def Let_def split: if_splits sum.splits dest: coalesce_heapStart)

lemma segregatedTraverse_loop_state:
  "segregatedTraverse_loop ks log s = Some (log', s') \<Longrightarrow> s' = s"
proof (induction ks arbitrary: log)
  case Nil
  then show ?case by simp
next
  case (Cons k ks)
  then show ?case by (auto simp: Let_def split: option.splits)
qed

lemma alloc_heapStart_segregated:
  assumes "alloc n s = Some (Inr (h, s'))" "searchMode s = SegregatedList"
  shows "heapStart s' = heapStart s"
  using assms(1)
proof (cases rule: alloc_cases)
  case (found b)
  from findBlock_result [OF found(1)] show ?thesis by simp
next
  case (grown s1)
  from grown(5) assms(2) show ?thesis by simp
qed

text \<open>
  On well-formed bucket chains the search and the traversal of the segregated mode do
  return; the traversal visits the five chains one after the other.
\<close>

lemma firstFit_loop_returns:
  "chain (mem s) block bs \<Longrightarrow> \<exists>r. firstFit_loop sz block s = Some r"
proof (induction bs arbitrary: block)
  case Nil
  then show ?case by (subst firstFit_loop.simps) simp
next
  case (Cons b bs)
  then have "block = b" "b \<noteq> 0" and "\<exists>r. firstFit_loop sz (b_next (mem s) b) s = Some r"
    by auto
  then show ?case by (subst firstFit_loop.simps) auto
qed

lemma segregatedFit_returns:
  assumes "0 \<le> getBucket sz" "getBucket sz < num_buckets"
    and "chain (mem s) (segregatedLists s (nat (getBucket sz))) bs"
  shows "\<exists>r. segregatedFit sz s = Some r"
proof -
  let ?s0 = "s\<lparr>heapStart := segregatedLists s (nat (getBucket sz))\<rparr>"
  from assms(3) have "chain (mem ?s0) (heapStart ?s0) bs" by simp
  then obtain r where "firstFit_loop sz (heapStart ?s0) ?s0 = Some r"
    using firstFit_loop_returns by blast
  with assms(1,2) show ?thesis
    by (cases r) (auto simp: segregatedFit_def firstFit_def Let_def split: prod.splits)
qed

lemma segregatedTraverse_loop_returns:
  assumes "\<forall>k\<in>set ks. chain (mem s) (segregatedLists s k) (cs k)"
  shows "segregatedTraverse_loop ks log s = Some (log @ concat (map cs ks), s)"
  using assms
proof (induction ks arbitrary: log)
  case Nil
  then show ?case by simp
next
  case (Cons k ks)
  let ?s1 = "s\<lparr>heapStart := segregatedLists s k\<rparr>"
  from Cons.prems have "chain (mem ?s1) (heapStart ?s1) (cs k)" by simp
  then have v: "visit log ?s1 = Some (log @ cs k)"
    unfolding visit_def by (rule visit_loop_chain)
  have restored: "?s1\<lparr>heapStart := heapStart s\<rparr> = s" by simp
  from Cons.prems have "segregatedTraverse_loop ks (log @ cs k) s =
      Some ((log @ cs k) @ concat (map cs ks), s)"
    by (intro Cons.IH) simp
  with v restored show ?case by (simp add: Let_def)
qed

lemma segregatedTraverse_returns:
  assumes "\<forall>k < nat num_buckets. chain (mem s) (segregatedLists s k) (cs k)"
  shows "segregatedTraverse s = Some (concat (map cs [0 ..< nat num_buckets]), s)"
  using assms segregatedTraverse_loop_returns [of "[0 ..< nat num_buckets]" s cs "[]"]
  by (simp add: segregatedTraverse_def)

text \<open>
  Claim C10: when \<open>segregatedFit\<close> returns, \<open>heapStart\<close> has the value it had before
  the call; when \<open>segregatedTraverse\<close> returns, the whole state is the one before the
  call; so in segregated mode \<open>alloc\<close>, \<open>free\<close> and \<open>traverse\<close> return with
  \<open>heapStart\<close> unchanged.
\<close>

theorem segregated_keeps_heapStart:
  "(segregatedFit sz s = Some (Inr (b, s1)) \<longrightarrow> heapStart s1 = heapStart s) \<and>
   (segregatedTraverse s = Some (log, s2) \<longrightarrow> heapStart s2 = heapStart s \<and> s2 = s) \<and>
   (searchMode s = SegregatedList \<longrightarrow>
      (alloc n s = Some (Inr (h, s3)) \<longrightarrow> heapStart s3 = heapStart s) \<and>
      (free d s = Inr s4 \<longrightarrow> heapStart s4 = heapStart s) \<and>
      (traverse s = Some (log', s5) \<longrightarrow> heapStart s5 = heapStart s))"
proof (intro conjI impI)
  assume "segregatedFit sz s = Some (Inr (b, s1))"
  from segregatedFit_result [OF this] show "heapStart s1 = heapStart s" by simp
next
  assume "segregatedTraverse s = Some (log, s2)"
  then show "s2 = s" "heapStart s2 = heapStart s"
    by (auto simp: segregatedTraverse_def dest: segregatedTraverse_loop_state)
next
  assume "searchMode s = SegregatedList" "alloc n s = Some (Inr (h, s3))"
  then show "heapStart s3 = heapStart s" by (auto dest: alloc_heapStart_segregated)
next
  assume "free d s = Inr s4"
  then show "heapStart s4 = heapStart s" by (rule free_heapStart)
next
  assume "searchMode s = SegregatedList" "traverse s = Some (log', s5)"
  then show "heapStart s5 = heapStart s"
    by (auto simp: traverse_def segregatedTraverse_def dest: segregatedTraverse_loop_state)
qed

text \<open>
  Claim C10 on \<open>ex_segregated\<close>, where \<open>heapStart\<close> is \<^verbatim>\<open>nullptr\<close> and the searches
  and traversals run through the bucket chains starting at 4096 and 4128.
\<close>

theorem segregated_keeps_heapStart_witness:
  "\<exists>b s1 log s2 h s3 s4 log' s5.
     segregatedFit 8 ex_segregated = Some (Inr (b, s1)) \<and> b = 4096 \<and>
     segregatedTraverse ex_segregated = Some (log, s2) \<and> log = [4096, 4128] \<and>
     searchMode ex_segregated = SegregatedList \<and>
     alloc 16 ex_segregated = Some (Inr (h, s3)) \<and>
     free (data_of 4128) ex_segregated = Inr s4 \<and>
     traverse ex_segregated = Some (log', s5) \<and>
     heapStart s1 = heapStart ex_segregated \<and> s2 = ex_segregated \<and>
     heapStart s3 = heapStart ex_segregated \<and> heapStart s4 = heapStart ex_segregated \<and>
     heapStart s5 = heapStart ex_segregated"
proof -
  obtain s1 where 1: "segregatedFit 8 ex_segregated = Some (Inr (4096, s1))"
    by (simp add: ex_segregated_def put_block_def size_defs store_defs op_defs loop_simps
        cong: let_weak_cong)
  obtain s2 where 2: "segregatedTraverse ex_segregated = Some ([4096, 4128], s2)"
    by (simp add: ex_segregated_def put_block_def segregatedTraverse_def num_buckets_def
        upt_rec visit_def loop_simps size_defs store_defs cong: let_weak_cong)
  have m: "searchMode ex_segregated = SegregatedList" by (simp add: ex_segregated_def)
  obtain h s3 where 3: "alloc 16 ex_segregated = Some (Inr (h, s3))"
    by (simp add: ex_segregated_def put_block_def size_defs store_defs op_defs loop_simps
        cong: let_weak_cong)
  obtain s4 where 4: "free (data_of 4128) ex_segregated = Inr s4"
    by (simp add: ex_segregated_def put_block_def size_defs store_defs op_defs
        cong: let_weak_cong)
  obtain s5 where 5: "traverse ex_segregated = Some ([4096, 4128], s5)"
    using 2 m by (simp add: traverse_def)
  from segregated_keeps_heapStart [of 8 ex_segregated 4096 s1 "[4096, 4128]" s2 16 h s3
      "data_of 4128" s4 "[4096, 4128]" s5] 1 2 m 3 4 5
  show ?thesis by simp
qed

end
